theory Spec2Isabelle
  imports Main "HOL-Library.Word" "HOL-Library.Char_ord" "HOL-Library.List_Lexorder"
begin

unbundle bit_operations_syntax

section \<open>Texts\<close>

text \<open>
  A Python \<^verbatim>\<open>str\<close> is a sequence of code points. The model covers the code points
  below 256, one \<^typ>\<open>char\<close> each, so \<^term>\<open>length\<close> and \<^term>\<open>take\<close> count what
  Python's \<^verbatim>\<open>len\<close> and slices count.

  \<^verbatim>\<open>str.lower()\<close> on these code points maps A-Z to a-z and the capital letters of the
  Latin-1 block (U+00C0..U+00DE without the multiplication sign U+00D7) to their small
  forms, 32 places up; everything else stays.
\<close>

definition lower_char :: "char \<Rightarrow> char" where
  "lower_char c =
     (let n = (of_char c :: nat)
      in if (65 \<le> n \<and> n \<le> 90) \<or> (192 \<le> n \<and> n \<le> 214) \<or> (216 \<le> n \<and> n \<le> 222)
         then char_of (n + 32) else c)"

definition lower :: "string \<Rightarrow> string" where
  "lower s = map lower_char s"

text \<open>\<^verbatim>\<open>t.startswith(w)\<close> and the substring test \<^verbatim>\<open>w in t\<close>.\<close>

fun startswith :: "string \<Rightarrow> string \<Rightarrow> bool" where
  "startswith t [] = True"
| "startswith [] (c # w) = False"
| "startswith (d # t) (c # w) = (c = d \<and> startswith t w)"

fun contains :: "string \<Rightarrow> string \<Rightarrow> bool" where
  "contains w [] = (w = [])"
| "contains w (d # t) = (startswith (d # t) w \<or> contains w t)"

section \<open>Severity\<close>

text \<open>
  The keyword sets of the source. They are Python sets; the lists below hold each
  member once, and only the number of members found in the text is used.
\<close>

definition HIGH_WORDS :: "string list" where
  "HIGH_WORDS = [''killed'', ''dead'', ''casualties'', ''massacre'', ''nuclear'', ''invasion'',
                 ''airstrike'', ''missile strike'', ''bombing'', ''dozens'', ''hundreds'']"

definition MEDIUM_WORDS :: "string list" where
  "MEDIUM_WORDS = [''attack'', ''attacked'', ''clash'', ''shelling'', ''drone'', ''wounded'',
                   ''offensive'']"

definition LOW_WORDS :: "string list" where
  "LOW_WORDS = [''ceasefire'', ''tension'', ''protest'', ''sanctions'', ''warning'']"

definition count_found :: "string list \<Rightarrow> string \<Rightarrow> nat" where
  \<comment> \<open>\<^verbatim>\<open>sum(1 for w in WORDS if w in t)\<close>\<close>
  "count_found ws t = length (filter (\<lambda>w. contains w t) ws)"

definition classify :: "string \<Rightarrow> string" where
  "classify text =
     (let t = lower text;
          h = count_found HIGH_WORDS t;
          m = count_found MEDIUM_WORDS t
      in if h \<ge> 1 then ''high''
         else if m \<ge> 1 then ''medium''
         else ''low'')"

section \<open>Cost estimation\<close>

text \<open>
  The patterns of the cost table use literals, alternation, concatenation, groups and
  the bounded wildcard \<^verbatim>\<open>.{0,n}\<close>; a value of the type below is the syntax tree
  \<^verbatim>\<open>re.compile\<close> builds for one of them.
\<close>

datatype regex =
    Lit string              \<comment> \<open>a run of literal characters\<close>
  | Alt regex regex         \<comment> \<open>\<^verbatim>\<open>a|b\<close>\<close>
  | Seq regex regex         \<comment> \<open>\<^verbatim>\<open>ab\<close>\<close>
  | AnyUpTo nat             \<comment> \<open>\<^verbatim>\<open>.{0,n}\<close>\<close>

text \<open>
  Under \<^verbatim>\<open>re.IGNORECASE\<close> a literal character of the pattern matches a character of
  the text when both have the same lower-case form.
\<close>

definition ci_eq :: "char \<Rightarrow> char \<Rightarrow> bool" where
  "ci_eq c d = (lower_char d = lower_char c)"

fun ci_startswith :: "string \<Rightarrow> string \<Rightarrow> bool" where
  "ci_startswith t [] = True"
| "ci_startswith [] (c # w) = False"
| "ci_startswith (d # t) (c # w) = (ci_eq c d \<and> ci_startswith t w)"

text \<open>
  \<^verbatim>\<open>.\<close> matches every character but the newline. \<open>dot_rests n t\<close> lists what is left
  of \<open>t\<close> after \<^verbatim>\<open>.{0,n}\<close> has consumed a prefix, longest first.
\<close>

fun dot_rests :: "nat \<Rightarrow> string \<Rightarrow> string list" where
  "dot_rests 0 t = [t]"
| "dot_rests (Suc n) [] = [[]]"
| "dot_rests (Suc n) (c # t) = (if c = CHR 0x0A then [c # t] else dot_rests n t @ [c # t])"

text \<open>
  \<open>rx_match r t\<close> lists what is left of \<open>t\<close> after each way \<open>r\<close> matches a prefix
  of it, in the order the backtracking matcher tries them.
\<close>

fun rx_match :: "regex \<Rightarrow> string \<Rightarrow> string list" where
  "rx_match (Lit w) t = (if ci_startswith t w then [drop (length w) t] else [])"
| "rx_match (Alt a b) t = rx_match a t @ rx_match b t"
| "rx_match (Seq a b) t = concat (map (rx_match b) (rx_match a t))"
| "rx_match (AnyUpTo n) t = dot_rests n t"

definition re_match :: "regex \<Rightarrow> string \<Rightarrow> bool" where
  \<comment> \<open>\<^verbatim>\<open>re.match(pattern, t, re.IGNORECASE)\<close> is not \<^verbatim>\<open>None\<close>\<close>
  "re_match r t = (rx_match r t \<noteq> [])"

fun re_search :: "regex \<Rightarrow> string \<Rightarrow> bool" where
  \<comment> \<open>\<^verbatim>\<open>re.search(pattern, t, re.IGNORECASE)\<close> is not \<^verbatim>\<open>None\<close>: a match at some position\<close>
  "re_search r [] = re_match r []"
| "re_search r (c # t) = (re_match r (c # t) \<or> re_search r t)"

text \<open>The table, in the order of the source; each pattern as its syntax tree.\<close>

definition WEAPON_COSTS :: "(regex \<times> int \<times> string) list" where
  "WEAPON_COSTS =
    [ \<comment> \<open>\<^verbatim>\<open>nuclear|nuke\<close>\<close>
      (Alt (Lit ''nuclear'') (Lit ''nuke''), 2000000000, ''Nuclear weapon deployment''),
      \<comment> \<open>\<^verbatim>\<open>aircraft carrier\<close>\<close>
      (Lit ''aircraft carrier'', 800000000, ''Aircraft carrier operation/day''),
      \<comment> \<open>\<^verbatim>\<open>B-2|B2 bomber\<close>\<close>
      (Alt (Lit ''B-2'') (Lit ''B2 bomber''), 135000, ''B-2 bomber sortie/hr''),
      \<comment> \<open>\<^verbatim>\<open>F-35|F35\<close>\<close>
      (Alt (Lit ''F-35'') (Lit ''F35''), 36000, ''F-35 sortie/hr''),
      \<comment> \<open>\<^verbatim>\<open>F-16|F16\<close>\<close>
      (Alt (Lit ''F-16'') (Lit ''F16''), 22000, ''F-16 sortie/hr''),
      \<comment> \<open>\<^verbatim>\<open>tomahawk\<close>\<close>
      (Lit ''tomahawk'', 2000000, ''Tomahawk cruise missile''),
      \<comment> \<open>\<^verbatim>\<open>patriot.{0,20}(missile|intercept)\<close>\<close>
      (Seq (Lit ''patriot'') (Seq (AnyUpTo 20) (Alt (Lit ''missile'') (Lit ''intercept''))),
       4000000, ''Patriot interceptor''),
      \<comment> \<open>\<^verbatim>\<open>HIMARS|himars\<close>\<close>
      (Alt (Lit ''HIMARS'') (Lit ''himars''), 100000, ''HIMARS rocket''),
      \<comment> \<open>\<^verbatim>\<open>JDAM|jdam\<close>\<close>
      (Alt (Lit ''JDAM'') (Lit ''jdam''), 30000, ''JDAM guided bomb''),
      \<comment> \<open>\<^verbatim>\<open>abrams|tank.{0,10}(destroy|hit)\<close>\<close>
      (Alt (Lit ''abrams'')
           (Seq (Lit ''tank'') (Seq (AnyUpTo 10) (Alt (Lit ''destroy'') (Lit ''hit'')))),
       10000000, ''Abrams tank''),
      \<comment> \<open>\<^verbatim>\<open>drone.{0,20}(strike|attack)\<close>\<close>
      (Seq (Lit ''drone'') (Seq (AnyUpTo 20) (Alt (Lit ''strike'') (Lit ''attack''))),
       50000, ''Drone strike est.''),
      \<comment> \<open>\<^verbatim>\<open>airstrike|air strike\<close>\<close>
      (Alt (Lit ''airstrike'') (Lit ''air strike''), 500000, ''Airstrike estimated cost''),
      \<comment> \<open>\<^verbatim>\<open>artillery|shelling|shell\<close>\<close>
      (Alt (Lit ''artillery'') (Alt (Lit ''shelling'') (Lit ''shell'')), 10000, ''Artillery round''),
      \<comment> \<open>\<^verbatim>\<open>missile\<close>\<close>
      (Lit ''missile'', 500000, ''Missile (generic est.)''),
      \<comment> \<open>\<^verbatim>\<open>bomb\<close>\<close>
      (Lit ''bomb'', 50000, ''Bomb/munition''),
      \<comment> \<open>\<^verbatim>\<open>explosion|blast\<close>\<close>
      (Alt (Lit ''explosion'') (Lit ''blast''), 20000, ''Explosive device'') ]"

text \<open>
  The loop of \<^verbatim>\<open>estimate_cost\<close> over a table: the first entry whose pattern is found
  decides; \<^verbatim>\<open>(0, None)\<close> when none is.
\<close>

fun scan_costs :: "(regex \<times> int \<times> string) list \<Rightarrow> string \<Rightarrow> int \<times> string option" where
  "scan_costs [] text = (0, None)"
| "scan_costs ((pattern, cost, label) # rest) text =
     (if re_search pattern text then (cost, Some label) else scan_costs rest text)"

definition estimate_cost :: "string \<Rightarrow> int \<times> string option" where
  "estimate_cost text = scan_costs WEAPON_COSTS text"

text \<open>The fields of the table's entry at a position.\<close>

definition pattern_at :: "nat \<Rightarrow> regex" where
  "pattern_at i = fst (WEAPON_COSTS ! i)"

definition cost_at :: "nat \<Rightarrow> int" where
  "cost_at i = fst (snd (WEAPON_COSTS ! i))"

definition label_at :: "nat \<Rightarrow> string" where
  "label_at i = snd (snd (WEAPON_COSTS ! i))"

text \<open>
  What a pattern matches, stated without the matcher: the set of strings it denotes.
\<close>

fun lang :: "regex \<Rightarrow> string set" where
  "lang (Lit w) = {u. length u = length w \<and> lower u = lower w}"
| "lang (Alt a b) = lang a \<union> lang b"
| "lang (Seq a b) = {u @ v | u v. u \<in> lang a \<and> v \<in> lang b}"
| "lang (AnyUpTo n) = {u. length u \<le> n \<and> CHR 0x0A \<notin> set u}"

section \<open>Supporting lemmas\<close>

text \<open>
  \<^const>\<open>lower_char\<close> on the bits of the character, for evaluation: the capital letters
  are the characters with bit 6 set and bit 5 clear whose low five bits are 1..26
  (ASCII) or anything but 23 and 31 (Latin-1), and lowering sets bit 5.
\<close>

lemma lower_char_code [code]:
  "lower_char (Char b0 b1 b2 b3 b4 b5 b6 b7) =
     (if b6 \<and> \<not> b5 \<and>
         (if b7 then \<not> (b4 \<and> b2 \<and> b1 \<and> b0)
          else (b0 \<or> b1 \<or> b2 \<or> b3 \<or> b4) \<and> \<not> (b4 \<and> b3 \<and> (b2 \<or> (b1 \<and> b0))))
      then Char b0 b1 b2 b3 b4 True b6 b7
      else Char b0 b1 b2 b3 b4 b5 b6 b7)"
  by (cases b0; cases b1; cases b2; cases b3; cases b4; cases b5; cases b6; cases b7;
      simp add: lower_char_def char_of_def bit_0)

lemma startswith_iff: "startswith t w \<longleftrightarrow> (\<exists>ss. t = w @ ss)"
  by (induction t w rule: startswith.induct) auto

lemma contains_iff: "contains w t \<longleftrightarrow> (\<exists>ps ss. t = ps @ w @ ss)"
proof (induction t)
  case Nil
  then show ?case by auto
next
  case (Cons d t)
  have "(\<exists>ps ss. d # t = ps @ w @ ss) \<longleftrightarrow>
        (\<exists>ss. d # t = w @ ss) \<or> (\<exists>ps ss. t = ps @ w @ ss)"
  proof
    assume "\<exists>ps ss. d # t = ps @ w @ ss"
    then obtain ps ss where e: "d # t = ps @ w @ ss" by blast
    show "(\<exists>ss. d # t = w @ ss) \<or> (\<exists>ps ss. t = ps @ w @ ss)"
    proof (cases ps)
      case Nil
      with e show ?thesis by auto
    next
      case (Cons p ps')
      with e have "t = ps' @ w @ ss" by simp
      then show ?thesis by blast
    qed
  next
    assume "(\<exists>ss. d # t = w @ ss) \<or> (\<exists>ps ss. t = ps @ w @ ss)"
    then show "\<exists>ps ss. d # t = ps @ w @ ss"
    proof
      assume "\<exists>ss. d # t = w @ ss"
      then obtain ss where "d # t = [] @ w @ ss" by auto
      then show ?thesis by blast
    next
      assume "\<exists>ps ss. t = ps @ w @ ss"
      then obtain ps ss where "d # t = (d # ps) @ w @ ss" by auto
      then show ?thesis by blast
    qed
  qed
  with Cons show ?case by (simp add: startswith_iff)
qed

lemma count_found_pos: "count_found ws t \<ge> 1 \<longleftrightarrow> (\<exists>w \<in> set ws. contains w t)"
proof -
  have "count_found ws t \<ge> 1 \<longleftrightarrow> filter (\<lambda>w. contains w t) ws \<noteq> []"
    by (cases "filter (\<lambda>w. contains w t) ws") (simp_all add: count_found_def)
  also have "\<dots> \<longleftrightarrow> (\<exists>w \<in> set ws. contains w t)"
    by (simp add: filter_empty_conv)
  finally show ?thesis .
qed

lemma distinct_words: "distinct HIGH_WORDS \<and> distinct MEDIUM_WORDS \<and> distinct LOW_WORDS"
  by (simp add: HIGH_WORDS_def MEDIUM_WORDS_def LOW_WORDS_def)

subsection \<open>The matcher and the language of a pattern\<close>

lemma ci_startswith_iff:
  "ci_startswith t w \<longleftrightarrow> (\<exists>u ss. t = u @ ss \<and> length u = length w \<and> lower u = lower w)"
proof (induction t w rule: ci_startswith.induct)
  case (1 t)
  then show ?case by simp
next
  case (2 c w)
  then show ?case by simp
next
  case (3 d t c w)
  show ?case
  proof
    assume "ci_startswith (d # t) (c # w)"
    then have cd: "lower_char d = lower_char c" and "ci_startswith t w"
      by (simp_all add: ci_eq_def)
    with 3 obtain u ss where "t = u @ ss" "length u = length w" "lower u = lower w"
      by blast
    with cd have "d # t = (d # u) @ ss \<and> length (d # u) = length (c # w)
        \<and> lower (d # u) = lower (c # w)"
      by (simp add: lower_def)
    then show "\<exists>u ss. d # t = u @ ss \<and> length u = length (c # w) \<and> lower u = lower (c # w)"
      by blast
  next
    assume "\<exists>u ss. d # t = u @ ss \<and> length u = length (c # w) \<and> lower u = lower (c # w)"
    then obtain u ss where u: "d # t = u @ ss" "length u = length (c # w)"
        "lower u = lower (c # w)"
      by blast
    from u(2) obtain e u' where e: "u = e # u'" by (cases u) auto
    with u have "e = d" "t = u' @ ss" "length u' = length w" "lower_char e = lower_char c"
        "lower u' = lower w"
      by (simp_all add: lower_def)
    with 3 show "ci_startswith (d # t) (c # w)"
      by (auto simp: ci_eq_def)
  qed
qed

lemma set_dot_rests:
  "set (dot_rests n t) = {s. \<exists>u. t = u @ s \<and> length u \<le> n \<and> CHR 0x0A \<notin> set u}"
proof (induction n t rule: dot_rests.induct)
  case (1 t)
  then show ?case by auto
next
  case (2 n)
  then show ?case by auto
next
  case (3 n c t)
  show ?case
  proof (cases "c = CHR 0x0A")
    case True
    have "(\<exists>u. c # t = u @ s \<and> length u \<le> Suc n \<and> CHR 0x0A \<notin> set u) \<longleftrightarrow> s = c # t" for s
    proof
      assume "\<exists>u. c # t = u @ s \<and> length u \<le> Suc n \<and> CHR 0x0A \<notin> set u"
      then obtain u where u: "c # t = u @ s" "CHR 0x0A \<notin> set u" by blast
      show "s = c # t"
      proof (cases u)
        case Nil
        with u show ?thesis by simp
      next
        case (Cons e u')
        with u True show ?thesis by simp
      qed
    next
      assume "s = c # t"
      then have "c # t = [] @ s \<and> length ([]::string) \<le> Suc n \<and> CHR 0x0A \<notin> set []"
        by simp
      then show "\<exists>u. c # t = u @ s \<and> length u \<le> Suc n \<and> CHR 0x0A \<notin> set u"
        by blast
    qed
    with True show ?thesis by auto
  next
    case False
    have "(\<exists>u. c # t = u @ s \<and> length u \<le> Suc n \<and> CHR 0x0A \<notin> set u) \<longleftrightarrow>
          s = c # t \<or> (\<exists>u. t = u @ s \<and> length u \<le> n \<and> CHR 0x0A \<notin> set u)" for s
    proof
      assume "\<exists>u. c # t = u @ s \<and> length u \<le> Suc n \<and> CHR 0x0A \<notin> set u"
      then obtain u where u: "c # t = u @ s" "length u \<le> Suc n" "CHR 0x0A \<notin> set u"
        by blast
      show "s = c # t \<or> (\<exists>u. t = u @ s \<and> length u \<le> n \<and> CHR 0x0A \<notin> set u)"
      proof (cases u)
        case Nil
        with u show ?thesis by simp
      next
        case (Cons e u')
        with u have "t = u' @ s \<and> length u' \<le> n \<and> CHR 0x0A \<notin> set u'" by simp
        then show ?thesis by blast
      qed
    next
      assume "s = c # t \<or> (\<exists>u. t = u @ s \<and> length u \<le> n \<and> CHR 0x0A \<notin> set u)"
      then show "\<exists>u. c # t = u @ s \<and> length u \<le> Suc n \<and> CHR 0x0A \<notin> set u"
      proof
        assume "s = c # t"
        then have "c # t = [] @ s \<and> length ([]::string) \<le> Suc n \<and> CHR 0x0A \<notin> set []"
          by simp
        then show ?thesis by blast
      next
        assume "\<exists>u. t = u @ s \<and> length u \<le> n \<and> CHR 0x0A \<notin> set u"
        then obtain u where "t = u @ s" "length u \<le> n" "CHR 0x0A \<notin> set u" by blast
        with False have "c # t = (c # u) @ s \<and> length (c # u) \<le> Suc n
            \<and> CHR 0x0A \<notin> set (c # u)"
          by auto
        then show ?thesis by blast
      qed
    qed
    with False 3 show ?thesis by auto
  qed
qed

lemma set_rx_match: "set (rx_match r t) = {s. \<exists>u \<in> lang r. t = u @ s}"
proof (induction r arbitrary: t)
  case (Lit w)
  show ?case
  proof (cases "ci_startswith t w")
    case True
    then obtain u ss where u: "t = u @ ss" "length u = length w" "lower u = lower w"
      unfolding ci_startswith_iff by blast
    have "(\<exists>v. length v = length w \<and> lower v = lower w \<and> t = v @ s) \<longleftrightarrow> s = ss" for s
    proof
      assume "\<exists>v. length v = length w \<and> lower v = lower w \<and> t = v @ s"
      then obtain v where "length v = length w" "t = v @ s" by blast
      with u show "s = ss" by simp
    next
      assume "s = ss"
      with u show "\<exists>v. length v = length w \<and> lower v = lower w \<and> t = v @ s" by blast
    qed
    moreover from u have "drop (length w) t = ss" by simp
    ultimately show ?thesis using True by auto
  next
    case False
    then have "\<not> (\<exists>u ss. t = u @ ss \<and> length u = length w \<and> lower u = lower w)"
      unfolding ci_startswith_iff .
    with False show ?thesis by auto
  qed
next
  case (Alt a b)
  then show ?case by auto
next
  case (Seq a b)
  show ?case
  proof (rule set_eqI)
    fix s
    have "s \<in> set (rx_match (Seq a b) t) \<longleftrightarrow>
          (\<exists>m \<in> set (rx_match a t). s \<in> set (rx_match b m))"
      by auto
    also have "\<dots> \<longleftrightarrow> (\<exists>m. (\<exists>u \<in> lang a. t = u @ m) \<and> (\<exists>v \<in> lang b. m = v @ s))"
      by (simp add: Seq)
    also have "\<dots> \<longleftrightarrow> (\<exists>u \<in> lang a. \<exists>v \<in> lang b. t = (u @ v) @ s)"
      by auto
    also have "\<dots> \<longleftrightarrow> (\<exists>x \<in> lang (Seq a b). t = x @ s)"
      by (simp del: append_assoc) blast
    finally show "s \<in> set (rx_match (Seq a b) t) \<longleftrightarrow> s \<in> {s. \<exists>u \<in> lang (Seq a b). t = u @ s}"
      by simp
  qed
next
  case (AnyUpTo n)
  show ?case by (auto simp: set_dot_rests)
qed

lemma re_match_iff: "re_match r t \<longleftrightarrow> (\<exists>u ss. u \<in> lang r \<and> t = u @ ss)"
proof -
  have "re_match r t \<longleftrightarrow> set (rx_match r t) \<noteq> {}"
    by (simp add: re_match_def)
  also have "\<dots> \<longleftrightarrow> (\<exists>u ss. u \<in> lang r \<and> t = u @ ss)"
    unfolding set_rx_match by blast
  finally show ?thesis .
qed

lemma re_search_iff: "re_search r t \<longleftrightarrow> (\<exists>ps u ss. u \<in> lang r \<and> t = ps @ u @ ss)"
proof (induction t)
  case Nil
  then show ?case by (auto simp: re_match_iff)
next
  case (Cons d t)
  have "(\<exists>ps u ss. u \<in> lang r \<and> d # t = ps @ u @ ss) \<longleftrightarrow>
        (\<exists>u ss. u \<in> lang r \<and> d # t = u @ ss) \<or> (\<exists>ps u ss. u \<in> lang r \<and> t = ps @ u @ ss)"
  proof
    assume "\<exists>ps u ss. u \<in> lang r \<and> d # t = ps @ u @ ss"
    then obtain ps u ss where e: "u \<in> lang r" "d # t = ps @ u @ ss" by blast
    show "(\<exists>u ss. u \<in> lang r \<and> d # t = u @ ss) \<or> (\<exists>ps u ss. u \<in> lang r \<and> t = ps @ u @ ss)"
    proof (cases ps)
      case Nil
      with e show ?thesis by auto
    next
      case (Cons p ps')
      with e have "u \<in> lang r \<and> t = ps' @ u @ ss" by simp
      then show ?thesis by blast
    qed
  next
    assume "(\<exists>u ss. u \<in> lang r \<and> d # t = u @ ss) \<or> (\<exists>ps u ss. u \<in> lang r \<and> t = ps @ u @ ss)"
    then show "\<exists>ps u ss. u \<in> lang r \<and> d # t = ps @ u @ ss"
    proof
      assume "\<exists>u ss. u \<in> lang r \<and> d # t = u @ ss"
      then obtain u ss where "u \<in> lang r \<and> d # t = [] @ u @ ss" by auto
      then show ?thesis by blast
    next
      assume "\<exists>ps u ss. u \<in> lang r \<and> t = ps @ u @ ss"
      then obtain ps u ss where "u \<in> lang r \<and> d # t = (d # ps) @ u @ ss" by auto
      then show ?thesis by blast
    qed
  qed
  with Cons show ?case by (simp add: re_match_iff)
qed

subsection \<open>The scan of a table\<close>

lemma scan_costs_none:
  "\<forall>e \<in> set tab. \<not> re_search (fst e) text \<Longrightarrow> scan_costs tab text = (0, None)"
  by (induction tab "text" rule: scan_costs.induct) auto

lemma scan_costs_first:
  "i < length tab \<Longrightarrow> re_search (fst (tab ! i)) text \<Longrightarrow>
   \<forall>j < i. \<not> re_search (fst (tab ! j)) text \<Longrightarrow>
   scan_costs tab text = (fst (snd (tab ! i)), Some (snd (snd (tab ! i))))"
proof (induction tab "text" arbitrary: i rule: scan_costs.induct)
  case (1 s)
  then show ?case by simp
next
  case (2 pattern cost label rest s)
  show ?case
  proof (cases i)
    case 0
    with 2 show ?thesis by simp
  next
    case (Suc k)
    with 2(3,4) have nomatch: "\<not> re_search pattern s" and
        rest: "\<forall>j < k. \<not> re_search (fst (rest ! j)) s"
      by fastforce+
    from Suc 2(2,3) have "k < length rest" "re_search (fst (rest ! k)) s" by simp_all
    with 2(1) [OF nomatch] rest Suc nomatch show ?thesis by simp
  qed
qed

lemma least_match:
  "i < length tab \<Longrightarrow> re_search (fst (tab ! i)) text \<Longrightarrow>
   \<exists>k \<le> i. re_search (fst (tab ! k)) text \<and> (\<forall>j < k. \<not> re_search (fst (tab ! j)) text)"
proof (induction i rule: less_induct)
  case (less i)
  show ?case
  proof (cases "\<forall>j < i. \<not> re_search (fst (tab ! j)) text")
    case True
    with less.prems show ?thesis by blast
  next
    case False
    then obtain j where j: "j < i" "re_search (fst (tab ! j)) text" by blast
    with less.prems have "j < length tab" by simp
    from less.IH [OF j(1) this j(2)] obtain k where
      "k \<le> j" "re_search (fst (tab ! k)) text" "\<forall>j < k. \<not> re_search (fst (tab ! j)) text"
      by blast
    with j(1) show ?thesis by (intro exI [of _ k]) simp
  qed
qed

lemma WEAPON_COSTS_length: "length WEAPON_COSTS = 16"
  by (simp add: WEAPON_COSTS_def)

lemma generic_entries:
  "WEAPON_COSTS ! 13 = (Lit ''missile'', 500000, ''Missile (generic est.)'')"
  "WEAPON_COSTS ! 14 = (Lit ''bomb'', 50000, ''Bomb/munition'')"
  by (simp_all add: WEAPON_COSTS_def)

lemma distinct_labels: "distinct (map (snd \<circ> snd) WEAPON_COSTS)"
  by (simp add: WEAPON_COSTS_def)

section \<open>Claims\<close>

text \<open>
  C6. \<^const>\<open>classify\<close> is a function of the text alone. If a high-severity keyword occurs
  in the lower-cased text the result is "high", whatever medium-severity keywords occur;
  otherwise, if a medium-severity keyword occurs, it is "medium"; otherwise "low". Two
  texts in which the same keywords occur get the same tier, however often each occurs.
\<close>

theorem classify_priority:
  "classify text =
     (if \<exists>w \<in> set HIGH_WORDS. contains w (lower text) then ''high''
      else if \<exists>w \<in> set MEDIUM_WORDS. contains w (lower text) then ''medium''
      else ''low'')
   \<and> ((\<forall>w \<in> set HIGH_WORDS \<union> set MEDIUM_WORDS.
          contains w (lower text) = contains w (lower text'))
        \<longrightarrow> classify text = classify text')"
proof -
  have cl: "classify u =
     (if \<exists>w \<in> set HIGH_WORDS. contains w (lower u) then ''high''
      else if \<exists>w \<in> set MEDIUM_WORDS. contains w (lower u) then ''medium''
      else ''low'')" for u
    unfolding classify_def Let_def count_found_pos ..
  have "classify text = classify text'"
    if "\<forall>w \<in> set HIGH_WORDS \<union> set MEDIUM_WORDS.
          contains w (lower text) = contains w (lower text')"
  proof -
    from that have
      "(\<exists>w \<in> set HIGH_WORDS. contains w (lower text)) =
       (\<exists>w \<in> set HIGH_WORDS. contains w (lower text'))"
      "(\<exists>w \<in> set MEDIUM_WORDS. contains w (lower text)) =
       (\<exists>w \<in> set MEDIUM_WORDS. contains w (lower text'))"
      by auto
    then show ?thesis by (simp only: cl)
  qed
  then show ?thesis using cl [of "text"] by blast
qed

theorem classify_priority_witness:
  "(\<exists>w \<in> set HIGH_WORDS. contains w (lower ''Drone attack: 3 KILLED'')) \<and>
   (\<exists>w \<in> set MEDIUM_WORDS. contains w (lower ''Drone attack: 3 KILLED'')) \<and>
   classify ''Drone attack: 3 KILLED'' = ''high'' \<and>
   list_all (\<lambda>w. contains w (lower ''Drone attack: 3 KILLED'')
                = contains w (lower ''killed, KILLED in a drone attack''))
     (HIGH_WORDS @ MEDIUM_WORDS) \<and>
   classify ''Drone attack: 3 KILLED'' = classify ''killed, KILLED in a drone attack''"
proof -
  let ?a = "''Drone attack: 3 KILLED''" and ?b = "''killed, KILLED in a drone attack''"
  have h: "\<exists>w \<in> set HIGH_WORDS. contains w (lower ?a)" by code_simp
  have m: "\<exists>w \<in> set MEDIUM_WORDS. contains w (lower ?a)" by code_simp
  have l: "list_all (\<lambda>w. contains w (lower ?a) = contains w (lower ?b)) (HIGH_WORDS @ MEDIUM_WORDS)"
    by code_simp
  then have p: "\<forall>w \<in> set HIGH_WORDS \<union> set MEDIUM_WORDS. contains w (lower ?a) = contains w (lower ?b)"
    by (simp only: list_all_iff set_append)
  have 1: "classify ?a = ''high''"
    using conjunct1 [OF classify_priority [of ?a ?b]] h by (simp only: if_True)
  have 2: "classify ?a = classify ?b"
    using conjunct2 [OF classify_priority [of ?a ?b]] p by (rule mp)
  from h m l 1 2 show ?thesis by (intro conjI)
qed

text \<open>
  C1. \<^const>\<open>estimate_cost\<close> returns the cost and label of the first entry of
  \<^const>\<open>WEAPON_COSTS\<close>, in table order, whose pattern is found in the text ignoring case.
  A text in which a pattern listed before the generic "missile" (position 13) and "bomb"
  (position 14) entries is found gets the cost and label of an entry at or before that
  pattern, the first one found, and never a generic label. When no pattern is found the
  result is cost 0 with no label.
\<close>

theorem estimate_cost_first_match:
  "(\<forall>i < length WEAPON_COSTS.
      re_search (pattern_at i) text \<and> (\<forall>j < i. \<not> re_search (pattern_at j) text)
      \<longrightarrow> estimate_cost text = (cost_at i, Some (label_at i)))
   \<and> (\<forall>i < 13. re_search (pattern_at i) text \<longrightarrow>
        (\<exists>k \<le> i. re_search (pattern_at k) text \<and> (\<forall>j < k. \<not> re_search (pattern_at j) text)
           \<and> estimate_cost text = (cost_at k, Some (label_at k)))
        \<and> snd (estimate_cost text) \<noteq> Some ''Missile (generic est.)''
        \<and> snd (estimate_cost text) \<noteq> Some ''Bomb/munition'')
   \<and> ((\<forall>i < length WEAPON_COSTS. \<not> re_search (pattern_at i) text)
        \<longrightarrow> estimate_cost text = (0, None))"
proof (intro conjI allI impI)
  fix i
  assume "i < length WEAPON_COSTS"
    and "re_search (pattern_at i) text \<and> (\<forall>j < i. \<not> re_search (pattern_at j) text)"
  then show "estimate_cost text = (cost_at i, Some (label_at i))"
    unfolding estimate_cost_def pattern_at_def cost_at_def label_at_def
    by (intro scan_costs_first) simp_all
next
  fix i :: nat
  assume i: "i < 13" and m: "re_search (pattern_at i) text"
  then have len: "i < length WEAPON_COSTS" by (simp add: WEAPON_COSTS_length)
  from least_match [OF len] m obtain k where
    k: "k \<le> i" "re_search (pattern_at k) text" "\<forall>j < k. \<not> re_search (pattern_at j) text"
    unfolding pattern_at_def by blast
  with len have klen: "k < length WEAPON_COSTS" by simp
  from k klen have r: "estimate_cost text = (cost_at k, Some (label_at k))"
    unfolding estimate_cost_def pattern_at_def cost_at_def label_at_def
    by (intro scan_costs_first) simp_all
  with k show "\<exists>k \<le> i. re_search (pattern_at k) text
      \<and> (\<forall>j < k. \<not> re_search (pattern_at j) text)
      \<and> estimate_cost text = (cost_at k, Some (label_at k))"
    by blast
  from k(1) i have k13: "k < 13" by simp
  have neq: "k \<noteq> 13" "k \<noteq> 14" using k13 by simp_all
  have d: "label_at k = label_at n \<longleftrightarrow> k = n" if "n < length WEAPON_COSTS" for n
    using nth_eq_iff_index_eq [OF distinct_labels, of k n] klen that
    by (simp add: label_at_def)
  have "label_at 13 = ''Missile (generic est.)''" "label_at 14 = ''Bomb/munition''"
    by (simp_all add: label_at_def generic_entries)
  with d [of 13] d [of 14] neq r
  show "snd (estimate_cost text) \<noteq> Some ''Missile (generic est.)''"
    and "snd (estimate_cost text) \<noteq> Some ''Bomb/munition''"
    by (simp_all add: WEAPON_COSTS_length)
next
  assume "\<forall>i < length WEAPON_COSTS. \<not> re_search (pattern_at i) text"
  then have "\<forall>e \<in> set WEAPON_COSTS. \<not> re_search (fst e) text"
    unfolding pattern_at_def by (metis in_set_conv_nth)
  then show "estimate_cost text = (0, None)"
    unfolding estimate_cost_def by (rule scan_costs_none)
qed

theorem estimate_cost_first_match_witness:
  "re_search (pattern_at 6) ''Patriot battery fires interceptors at missile''
   \<and> list_all (\<lambda>j. \<not> re_search (pattern_at j) ''Patriot battery fires interceptors at missile'')
        [0..<6]
   \<and> re_search (pattern_at 13) ''Patriot battery fires interceptors at missile''
   \<and> estimate_cost ''Patriot battery fires interceptors at missile''
        = (4000000, Some ''Patriot interceptor'')
   \<and> list_all (\<lambda>j. \<not> re_search (pattern_at j) ''Peace talks resume'') [0..<16]
   \<and> estimate_cost ''Peace talks resume'' = (0, None)"
proof -
  let ?T = "''Patriot battery fires interceptors at missile''" and ?U = "''Peace talks resume''"
  have a: "re_search (pattern_at 6) ?T" by code_simp
  have b: "list_all (\<lambda>j. \<not> re_search (pattern_at j) ?T) [0..<6]" by code_simp
  then have b': "\<forall>j < 6. \<not> re_search (pattern_at j) ?T" by (simp add: list_all_iff)
  have g: "re_search (pattern_at 13) ?T" by code_simp
  have len: "(6::nat) < length WEAPON_COSTS" by (simp add: WEAPON_COSTS_length)
  have "estimate_cost ?T = (cost_at 6, Some (label_at 6))"
    using conjunct1 [OF estimate_cost_first_match [of ?T]] len a b' by blast
  moreover have "cost_at 6 = 4000000" "label_at 6 = ''Patriot interceptor''"
    by (simp_all add: cost_at_def label_at_def WEAPON_COSTS_def)
  ultimately have r: "estimate_cost ?T = (4000000, Some ''Patriot interceptor'')" by simp
  have c: "list_all (\<lambda>j. \<not> re_search (pattern_at j) ?U) [0..<16]" by code_simp
  then have "\<forall>i < length WEAPON_COSTS. \<not> re_search (pattern_at i) ?U"
    by (simp add: list_all_iff WEAPON_COSTS_length)
  with conjunct2 [OF conjunct2 [OF estimate_cost_first_match [of ?U]]]
  have n: "estimate_cost ?U = (0, None)" by (rule mp)
  from a b g r c n show ?thesis by (intro conjI)
qed

end
